theory Spec2Isabelle
  imports Main
begin

section \<open>Strings of UTF-16 code units\<close>

text \<open>
  A JavaScript string is a sequence of UTF-16 code units, and the regular expressions of
  \<^verbatim>\<open>core.js\<close> carry no \<^verbatim>\<open>u\<close> flag, so they work on code units. A string is
  modelled as a list of code units (natural numbers); \<open>js\<close> turns an ASCII literal into
  such a list.
\<close>

type_synonym jsstring = "nat list"

definition js :: "string \<Rightarrow> jsstring" where
  "js s = map of_char s"

text \<open>
  \<^verbatim>\<open>\s\<close> (and \<^verbatim>\<open>String.prototype.trim\<close>): WhiteSpace and LineTerminator of ECMAScript:
  TAB, LF, VT, FF, CR, SP, NBSP, U+1680, U+2000..U+200A, U+2028, U+2029, U+202F, U+205F,
  U+3000, U+FEFF.
\<close>

definition is_space :: "nat \<Rightarrow> bool" where
  "is_space c \<longleftrightarrow>
     c = 9 \<or> c = 10 \<or> c = 11 \<or> c = 12 \<or> c = 13 \<or> c = 32 \<or> c = 160 \<or> c = 5760 \<or>
     (8192 \<le> c \<and> c \<le> 8202) \<or> c = 8232 \<or> c = 8233 \<or> c = 8239 \<or> c = 8287 \<or>
     c = 12288 \<or> c = 65279"

text \<open>The dot of a regular expression matches every code unit but LF, CR, U+2028, U+2029.\<close>

definition is_dot :: "nat \<Rightarrow> bool" where
  "is_dot c \<longleftrightarrow> \<not> (c = 10 \<or> c = 13 \<or> c = 8232 \<or> c = 8233)"

definition is_digit :: "nat \<Rightarrow> bool" where
  "is_digit c \<longleftrightarrow> 48 \<le> c \<and> c \<le> 57"

definition is_lower :: "nat \<Rightarrow> bool" where
  "is_lower c \<longleftrightarrow> 97 \<le> c \<and> c \<le> 122"

text \<open>\<^verbatim>\<open>[a-z]\<close> under the \<^verbatim>\<open>i\<close> flag: the ASCII letters of both cases.\<close>

definition is_alpha :: "nat \<Rightarrow> bool" where
  "is_alpha c \<longleftrightarrow> (97 \<le> c \<and> c \<le> 122) \<or> (65 \<le> c \<and> c \<le> 90)"

text \<open>\<^verbatim>\<open>[\w+-]\<close> under the \<^verbatim>\<open>i\<close> flag.\<close>

definition is_wordplus :: "nat \<Rightarrow> bool" where
  "is_wordplus c \<longleftrightarrow> is_alpha c \<or> is_digit c \<or> c = 95 \<or> c = 43 \<or> c = 45"

text \<open>\<^verbatim>\<open>[ \t]\<close>\<close>

definition is_sptab :: "nat \<Rightarrow> bool" where
  "is_sptab c \<longleftrightarrow> c = 32 \<or> c = 9"

text \<open>\<^verbatim>\<open>[._=*+\-]\<close>\<close>

definition is_fence_char :: "nat \<Rightarrow> bool" where
  "is_fence_char c \<longleftrightarrow> c = 46 \<or> c = 95 \<or> c = 61 \<or> c = 42 \<or> c = 43 \<or> c = 45"

text \<open>\<^verbatim>\<open>\s*$\<close> and \<^verbatim>\<open>.*$\<close> on the rest of a string.\<close>

definition all_ws :: "jsstring \<Rightarrow> bool" where
  "all_ws s = list_all is_space s"

definition all_dot :: "jsstring \<Rightarrow> bool" where
  "all_dot s = list_all is_dot s"

text \<open>\<^verbatim>\<open>\s?.*$\<close> on the rest of a string.\<close>

definition opt_ws_dot :: "jsstring \<Rightarrow> bool" where
  "opt_ws_dot s \<longleftrightarrow>
     all_dot s \<or> (case s of [] \<Rightarrow> False | c # r \<Rightarrow> is_space c \<and> all_dot r)"

definition starts_with :: "jsstring \<Rightarrow> jsstring \<Rightarrow> bool" where
  "starts_with p s \<longleftrightarrow> take (length p) s = p"

text \<open>\<^verbatim>\<open>String.prototype.trim\<close>\<close>

definition js_trim :: "jsstring \<Rightarrow> jsstring" where
  "js_trim s = rev (dropWhile is_space (rev (dropWhile is_space s)))"

text \<open>
  \<^verbatim>\<open>s.slice(a, b)\<close> and \<^verbatim>\<open>s.slice(a)\<close>: a negative index counts from the end, and
  both are clamped to the string.
\<close>

definition slice_index :: "nat \<Rightarrow> int \<Rightarrow> nat" where
  "slice_index len k = (if k < 0 then nat (max (int len + k) 0) else min (nat k) len)"

definition js_slice :: "jsstring \<Rightarrow> int \<Rightarrow> int \<Rightarrow> jsstring" where
  "js_slice s a b =
     (let from = slice_index (length s) a; to = slice_index (length s) b
      in take (to - from) (drop from s))"

definition js_slice_from :: "jsstring \<Rightarrow> int \<Rightarrow> jsstring" where
  "js_slice_from s a = drop (slice_index (length s) a) s"

text \<open>\<^verbatim>\<open>parts.join(sep)\<close>\<close>

fun js_join :: "jsstring \<Rightarrow> jsstring list \<Rightarrow> jsstring" where
  "js_join sep [] = []"
| "js_join sep [x] = x"
| "js_join sep (x # y # r) = x @ sep @ js_join sep (y # r)"

text \<open>\<^verbatim>\<open>s.split(c)\<close> for a separator of one code unit: never the empty array.\<close>

fun js_split_char :: "nat \<Rightarrow> jsstring \<Rightarrow> jsstring list" where
  "js_split_char sep [] = [[]]"
| "js_split_char sep (c # cs) =
     (if c = sep then [] # js_split_char sep cs
      else (case js_split_char sep cs of
              [] \<Rightarrow> [[c]]
            | p # ps \<Rightarrow> (c # p) # ps))"

text \<open>
  \<^verbatim>\<open>s.split(/\s+/)\<close>: the pieces between the maximal runs of white space, with an empty
  first or last piece where the string starts or ends with white space.
\<close>

function js_split_ws :: "jsstring \<Rightarrow> jsstring list" where
  "js_split_ws [] = [[]]"
| "js_split_ws (c # cs) =
     (if is_space c then [] # js_split_ws (dropWhile is_space cs)
      else (case js_split_ws cs of
              [] \<Rightarrow> [[c]]
            | p # ps \<Rightarrow> (c # p) # ps))"
  by pat_completeness auto
termination
  by (relation "measure length") (auto simp: length_dropWhile_le le_imp_less_Suc)

text \<open>\<^verbatim>\<open>s.replace(/\s+/g, " ")\<close>\<close>

function collapse_ws :: "jsstring \<Rightarrow> jsstring" where
  "collapse_ws [] = []"
| "collapse_ws (c # cs) =
     (if is_space c then 32 # collapse_ws (dropWhile is_space cs)
      else c # collapse_ws cs)"
  by pat_completeness auto
termination
  by (relation "measure length") (auto simp: length_dropWhile_le le_imp_less_Suc)

text \<open>
  \<^verbatim>\<open>input.split(/\r?\n/)\<close>: a piece ends at a line feed, or at a carriage return that a
  line feed follows; the separator is dropped.
\<close>

fun js_split_lines :: "jsstring \<Rightarrow> jsstring list" where
  "js_split_lines [] = [[]]"
| "js_split_lines (c # cs) =
     (if c = 10 then [] # js_split_lines cs
      else if c = 13 \<and> (case cs of [] \<Rightarrow> False | d # _ \<Rightarrow> d = 10) then [] # js_split_lines (tl cs)
      else (case js_split_lines cs of
              [] \<Rightarrow> [[c]]
            | p # ps \<Rightarrow> (c # p) # ps))"

section \<open>Patterns and delimiters\<close>

text \<open>
  Each regular expression of \<^verbatim>\<open>core.js\<close> is a predicate on strings (for
  \<^verbatim>\<open>re.test(s)\<close>), or a function to the captured groups (for \<^verbatim>\<open>s.match(re)\<close>). None
  of them has the \<^verbatim>\<open>m\<close> or \<^verbatim>\<open>g\<close> flag: \<^verbatim>\<open>^\<close> and \<^verbatim>\<open>$\<close> are the two ends of
  the string. Where a greedy quantifier is followed by a code unit outside its class, the
  quantifier takes the maximal run (\<open>takeWhile\<close>) and what follows starts at
  \<open>dropWhile\<close>; where the classes overlap, every split is tried.
\<close>

text \<open>\<^verbatim>\<open>FENCE_RE = /^([._=*+\-]{4,})\s*$/\<close>\<close>

definition FENCE_RE :: "jsstring \<Rightarrow> bool" where
  "FENCE_RE s \<longleftrightarrow>
     4 \<le> length (takeWhile is_fence_char s) \<and> all_ws (dropWhile is_fence_char s)"

text \<open>\<^verbatim>\<open>OPEN_BLOCK_RE = /^--\s*$/\<close>\<close>

definition OPEN_BLOCK_RE :: "jsstring \<Rightarrow> bool" where
  "OPEN_BLOCK_RE s \<longleftrightarrow> starts_with (js ''--'') s \<and> all_ws (drop 2 s)"

text \<open>\<^verbatim>\<open>TITLE_RE = /^=+\s/\<close>\<close>

definition TITLE_RE :: "jsstring \<Rightarrow> bool" where
  "TITLE_RE s \<longleftrightarrow>
     takeWhile (\<lambda>c. c = 61) s \<noteq> [] \<and>
     (case dropWhile (\<lambda>c. c = 61) s of [] \<Rightarrow> False | c # _ \<Rightarrow> is_space c)"

text \<open>\<^verbatim>\<open>ATTR_RE = /^:[^:\s][^:]*:\s?.*$/\<close>\<close>

definition ATTR_RE :: "jsstring \<Rightarrow> bool" where
  "ATTR_RE s \<longleftrightarrow>
     (case s of
        c0 # c1 # r \<Rightarrow>
          c0 = 58 \<and> c1 \<noteq> 58 \<and> \<not> is_space c1 \<and>
          (case dropWhile (\<lambda>c. c \<noteq> 58) r of [] \<Rightarrow> False | _ # b \<Rightarrow> opt_ws_dot b)
      | _ \<Rightarrow> False)"

text \<open>\<^verbatim>\<open>BLOCK_TITLE_RE = /^\.[^\s].*$/\<close>\<close>

definition BLOCK_TITLE_RE :: "jsstring \<Rightarrow> bool" where
  "BLOCK_TITLE_RE s \<longleftrightarrow>
     (case s of c0 # c1 # r \<Rightarrow> c0 = 46 \<and> \<not> is_space c1 \<and> all_dot r | _ \<Rightarrow> False)"

text \<open>\<^verbatim>\<open>BLOCK_ATTR_RE = /^\[[^\]]+\]\s*$/\<close>\<close>

definition BLOCK_ATTR_RE :: "jsstring \<Rightarrow> bool" where
  "BLOCK_ATTR_RE s \<longleftrightarrow>
     (case s of
        c0 # r \<Rightarrow>
          c0 = 91 \<and> takeWhile (\<lambda>c. c \<noteq> 93) r \<noteq> [] \<and>
          (case dropWhile (\<lambda>c. c \<noteq> 93) r of [] \<Rightarrow> False | _ # b \<Rightarrow> all_ws b)
      | _ \<Rightarrow> False)"

text \<open>\<^verbatim>\<open>ANCHOR_RE = /^\s*\[\[[^\]]+\]\]\s*$/\<close>\<close>

definition ANCHOR_RE :: "jsstring \<Rightarrow> bool" where
  "ANCHOR_RE s \<longleftrightarrow>
     (let r = dropWhile is_space s; r2 = drop 2 r;
          b = dropWhile (\<lambda>c. c \<noteq> 93) r2
      in starts_with (js ''[['') r \<and> takeWhile (\<lambda>c. c \<noteq> 93) r2 \<noteq> [] \<and>
         starts_with (js '']]'') b \<and> all_ws (drop 2 b))"

text \<open>\<^verbatim>\<open>CONDITIONAL_RE = /^(ifdef|ifndef|ifeval|endif)::.*$/\<close>\<close>

definition CONDITIONAL_RE :: "jsstring \<Rightarrow> bool" where
  "CONDITIONAL_RE s \<longleftrightarrow>
     list_ex (\<lambda>p. starts_with (p @ js ''::'') s \<and> all_dot (drop (length p + 2) s))
       [js ''ifdef'', js ''ifndef'', js ''ifeval'', js ''endif'']"

text \<open>
  \<^verbatim>\<open>INCLUDE_RE = /^include::\S+\[.*\]\s*$/\<close>. The closing bracket is the last code unit
  that is not white space; before it, \<^verbatim>\<open>\S+\[.*\<close> may put its bracket at any place
  after the first code unit (\<open>include_target\<close> tries them from the left).
\<close>

fun include_rest :: "jsstring \<Rightarrow> bool" where
  "include_rest [] = False"
| "include_rest (c # cs) = ((c = 91 \<and> all_dot cs) \<or> (\<not> is_space c \<and> include_rest cs))"

definition include_target :: "jsstring \<Rightarrow> bool" where
  "include_target s \<longleftrightarrow>
     (case s of [] \<Rightarrow> False | c # cs \<Rightarrow> \<not> is_space c \<and> include_rest cs)"

definition INCLUDE_RE :: "jsstring \<Rightarrow> bool" where
  "INCLUDE_RE s \<longleftrightarrow>
     starts_with (js ''include::'') s \<and>
     (case dropWhile is_space (rev (drop 9 s)) of
        [] \<Rightarrow> False
      | c # b \<Rightarrow> c = 93 \<and> include_target (rev b))"

text \<open>
  \<^verbatim>\<open>BLOCK_MACRO_RE = /^[a-z][\w+-]*:(?::)?(?:\S+)?\[[^\]]*\]\s*$/i\<close>. After the first
  colon, \<^verbatim>\<open>(?::)?(?:\S+)?\<close> is any run of code units that are not white space (a colon
  is one of them), then the bracket pair and white space up to the end.
\<close>

definition bracket_close :: "jsstring \<Rightarrow> bool" where
  "bracket_close s \<longleftrightarrow>
     (case dropWhile (\<lambda>c. c \<noteq> 93) s of [] \<Rightarrow> False | _ # b \<Rightarrow> all_ws b)"

fun macro_tail :: "jsstring \<Rightarrow> bool" where
  "macro_tail [] = False"
| "macro_tail (c # cs) = ((c = 91 \<and> bracket_close cs) \<or> (\<not> is_space c \<and> macro_tail cs))"

definition BLOCK_MACRO_RE :: "jsstring \<Rightarrow> bool" where
  "BLOCK_MACRO_RE s \<longleftrightarrow>
     (case s of
        [] \<Rightarrow> False
      | c # r \<Rightarrow>
          is_alpha c \<and>
          (case dropWhile is_wordplus r of
             [] \<Rightarrow> False
           | d # R \<Rightarrow> d = 58 \<and> macro_tail R))"

text \<open>\<^verbatim>\<open>TABLE_FENCE_RE = /^\|===\s*$/\<close>\<close>

definition TABLE_FENCE_RE :: "jsstring \<Rightarrow> bool" where
  "TABLE_FENCE_RE s \<longleftrightarrow> starts_with (js ''|==='') s \<and> all_ws (drop 4 s)"

text \<open>\<^verbatim>\<open>COMMENT_BLOCK_FENCE_RE = /^\/\/\/\/\s*$/\<close>\<close>

definition COMMENT_BLOCK_FENCE_RE :: "jsstring \<Rightarrow> bool" where
  "COMMENT_BLOCK_FENCE_RE s \<longleftrightarrow> starts_with (js ''////'') s \<and> all_ws (drop 4 s)"

text \<open>\<^verbatim>\<open>LINE_COMMENT_RE = /^\s*\/\/(?!\/\/)\s?.*$/\<close>\<close>

definition LINE_COMMENT_RE :: "jsstring \<Rightarrow> bool" where
  "LINE_COMMENT_RE s \<longleftrightarrow>
     (let r = dropWhile is_space s; R = drop 2 r
      in starts_with (js ''//'') r \<and> \<not> starts_with (js ''//'') R \<and> opt_ws_dot R)"

text \<open>\<^verbatim>\<open>HR_RE = /^'{3,}\s*$/\<close> and \<^verbatim>\<open>PAGE_RE = /^<<<\s*$/\<close>\<close>

definition HR_RE :: "jsstring \<Rightarrow> bool" where
  "HR_RE s \<longleftrightarrow>
     3 \<le> length (takeWhile (\<lambda>c. c = 39) s) \<and> all_ws (dropWhile (\<lambda>c. c = 39) s)"

definition PAGE_RE :: "jsstring \<Rightarrow> bool" where
  "PAGE_RE s \<longleftrightarrow> starts_with (js ''<<<'') s \<and> all_ws (drop 3 s)"

text \<open>\<^verbatim>\<open>URL_TOKEN_RE = /^[a-z]+:\/\/\S+$/i\<close>\<close>

definition URL_TOKEN_RE :: "jsstring \<Rightarrow> bool" where
  "URL_TOKEN_RE s \<longleftrightarrow>
     (let r = dropWhile is_alpha s; rest = drop 3 r
      in takeWhile is_alpha s \<noteq> [] \<and> starts_with (js ''://'') r \<and>
         rest \<noteq> [] \<and> list_all (\<lambda>c. \<not> is_space c) rest)"

text \<open>\<^verbatim>\<open>LEADING_SPACE_LINE_RE = /^ [^\s].*$/\<close>\<close>

definition LEADING_SPACE_LINE_RE :: "jsstring \<Rightarrow> bool" where
  "LEADING_SPACE_LINE_RE s \<longleftrightarrow>
     (case s of c0 # c1 # r \<Rightarrow> c0 = 32 \<and> \<not> is_space c1 \<and> all_dot r | _ \<Rightarrow> False)"

text \<open>\<^verbatim>\<open>INDENTED_CODE_RE = /^(\t| {4,})/\<close>\<close>

definition INDENTED_CODE_RE :: "jsstring \<Rightarrow> bool" where
  "INDENTED_CODE_RE s \<longleftrightarrow> starts_with [9] s \<or> starts_with (js ''    '') s"

text \<open>\<^verbatim>\<open>CONTINUATION_LINE_RE = /^[ \t]*\+[ \t]*$/\<close>\<close>

definition CONTINUATION_LINE_RE :: "jsstring \<Rightarrow> bool" where
  "CONTINUATION_LINE_RE s \<longleftrightarrow>
     (case dropWhile is_sptab s of [] \<Rightarrow> False | c # r \<Rightarrow> c = 43 \<and> list_all is_sptab r)"

text \<open>The blank-line test \<^verbatim>\<open>/^\s*$/\<close> and the hard-break test \<^verbatim>\<open>/\s\+$/\<close>.\<close>

definition BLANK_RE :: "jsstring \<Rightarrow> bool" where
  "BLANK_RE s \<longleftrightarrow> all_ws s"

definition HARD_BREAK_RE :: "jsstring \<Rightarrow> bool" where
  "HARD_BREAK_RE s \<longleftrightarrow>
     (case rev s of c # d # _ \<Rightarrow> c = 43 \<and> is_space d | _ \<Rightarrow> False)"

text \<open>
  \<^verbatim>\<open>LIST_RE = /^([ \t]*)(\*{1,6}|\+{1,6}|\-{1,6}|[0-9]+\.|[a-z]\.|U+2022)\s+(.*)$/\<close>, where
  the last alternative is the bullet U+2022. \<open>list_marker\<close> is the second group: a run of
  at most six of the same bullet sign (a longer run leaves a bullet sign where white space
  must follow, so nothing matches), digits and a dot, one lower-case letter and a dot, or
  U+2022. The match is the triple of the groups (indent, marker, rest).
\<close>

definition bullet_run :: "nat \<Rightarrow> jsstring \<Rightarrow> jsstring option" where
  "bullet_run b s =
     (let run = takeWhile (\<lambda>c. c = b) s
      in if run \<noteq> [] \<and> length run \<le> 6 then Some run else None)"

definition list_marker :: "jsstring \<Rightarrow> jsstring option" where
  "list_marker s =
     (case s of
        [] \<Rightarrow> None
      | c # r \<Rightarrow>
          if c = 42 \<or> c = 43 \<or> c = 45 then bullet_run c s
          else if is_digit c then
            (case dropWhile is_digit s of
               [] \<Rightarrow> None
             | d # _ \<Rightarrow> if d = 46 then Some (takeWhile is_digit s @ [46]) else None)
          else if is_lower c then
            (case r of [] \<Rightarrow> None | d # _ \<Rightarrow> if d = 46 then Some [c, 46] else None)
          else if c = 8226 then Some [8226]
          else None)"

definition LIST_RE :: "jsstring \<Rightarrow> (jsstring \<times> jsstring \<times> jsstring) option" where
  "LIST_RE s =
     (let indent = takeWhile is_sptab s; r = dropWhile is_sptab s
      in case list_marker r of
           None \<Rightarrow> None
         | Some marker \<Rightarrow>
             (let r2 = drop (length marker) r; rest = dropWhile is_space r2
              in if takeWhile is_space r2 \<noteq> [] \<and> all_dot rest
                 then Some (indent, marker, rest) else None))"

text \<open>
  \<^verbatim>\<open>DEF_LIST_RE = /^([ \t]*)([^:]+)::\s*(.*)$/\<close>. The second group ends at the first colon
  of the line, which must be the first of two; it takes at least one code unit, so when
  everything before that colon is blanks and tabs the first group gives the last of them
  back.
\<close>

definition DEF_LIST_RE :: "jsstring \<Rightarrow> (jsstring \<times> jsstring \<times> jsstring) option" where
  "DEF_LIST_RE s =
     (let pre = takeWhile (\<lambda>c. c \<noteq> 58) s; post = dropWhile (\<lambda>c. c \<noteq> 58) s;
          ws = takeWhile is_sptab pre;
          indent = (if ws = pre then butlast ws else ws);
          rest = dropWhile is_space (drop 2 post)
      in if pre \<noteq> [] \<and> starts_with (js ''::'') post \<and> all_dot rest
         then Some (indent, drop (length indent) pre, rest) else None)"

text \<open>\<^verbatim>\<open>ADMON_SINGLE_RE = /^(NOTE|TIP|IMPORTANT|WARNING|CAUTION):\s*(.*)$/\<close>: the label and
  the body.\<close>

definition ADMON_SINGLE_RE :: "jsstring \<Rightarrow> (jsstring \<times> jsstring) option" where
  "ADMON_SINGLE_RE s =
     (case find (\<lambda>l. starts_with (l @ [58]) s)
             [js ''NOTE'', js ''TIP'', js ''IMPORTANT'', js ''WARNING'', js ''CAUTION''] of
        None \<Rightarrow> None
      | Some label \<Rightarrow>
          (let body = dropWhile is_space (drop (length label + 1) s)
           in if all_dot body then Some (label, body) else None))"

text \<open>The checklist prefix \<^verbatim>\<open>/^\[(?: |x|X|-)\]\s+/\<close>: the matched text, if any.\<close>

definition CHECKLIST_RE :: "jsstring \<Rightarrow> jsstring option" where
  "CHECKLIST_RE s =
     (case s of
        c0 # c1 # c2 # r \<Rightarrow>
          if c0 = 91 \<and> (c1 = 32 \<or> c1 = 120 \<or> c1 = 88 \<or> c1 = 45) \<and> c2 = 93 \<and>
             takeWhile is_space r \<noteq> []
          then Some ([c0, c1, c2] @ takeWhile is_space r) else None
      | _ \<Rightarrow> None)"

text \<open>\<^verbatim>\<open>markerDepth\<close>: repeated bullet signs give their number, the other markers 1.\<close>

definition markerDepth :: "jsstring \<Rightarrow> nat" where
  "markerDepth m =
     (if m = [] then 0
      else if list_all (\<lambda>c. c = 42) m \<or> list_all (\<lambda>c. c = 43) m \<or> list_all (\<lambda>c. c = 45) m
        then length m
      else if butlast m \<noteq> [] \<and> list_all is_digit (butlast m) \<and> last m = 46 then 1
      else if (case m of [c, d] \<Rightarrow> is_lower c \<and> d = 46 | _ \<Rightarrow> False) then 1
      else if m = [8226] then 1
      else 0)"

section \<open>Wrapping helpers\<close>

text \<open>
  The inner loop of \<^verbatim>\<open>wrapText\<close> that splits a long token:
  \<^verbatim>\<open>while (s.length > width) { lines.push(s.slice(0, width)); s = s.slice(width); }\<close>
  It makes no progress when \<^verbatim>\<open>width\<close> is not positive, so it is a partial function:
  \<open>None\<close> is the loop that does not end.
\<close>

partial_function (option) hardSplit ::
    "int \<Rightarrow> jsstring list \<Rightarrow> jsstring \<Rightarrow> (jsstring list \<times> jsstring) option" where
  "hardSplit width lines s =
     (if int (length s) > width
      then hardSplit width (lines @ [js_slice s 0 width]) (js_slice_from s width)
      else Some (lines, s))"

declare hardSplit.simps [code]

text \<open>One round of \<^verbatim>\<open>for (const w of words)\<close> on the pair of \<^verbatim>\<open>lines\<close> and \<^verbatim>\<open>line\<close>.\<close>

definition wrap_word ::
    "int \<Rightarrow> jsstring list \<times> jsstring \<Rightarrow> jsstring \<Rightarrow> (jsstring list \<times> jsstring) option" where
  "wrap_word width st w =
     (case st of (lines, line) \<Rightarrow>
        if \<not> URL_TOKEN_RE w \<and> int (length w) \<ge> width then
          hardSplit width (if line \<noteq> [] then lines @ [line] else lines) w
        else
          (let candidate = (if line \<noteq> [] then line @ [32] @ w else w)
           in if int (length candidate) > width then
                (let parts = js_split_char 32 line; lastp = last parts
                 in if line \<noteq> [] \<and> length lastp \<le> 2 \<and> length parts > 1
                    then Some (lines @ [js_join [32] (butlast parts)], lastp @ [32] @ w)
                    else Some (lines @ [line], w))
              else Some (lines, candidate)))"

fun wrap_words ::
    "int \<Rightarrow> jsstring list \<Rightarrow> jsstring list \<times> jsstring \<Rightarrow> (jsstring list \<times> jsstring) option" where
  "wrap_words width [] st = Some st"
| "wrap_words width (w # ws) st =
     (case wrap_word width st w of None \<Rightarrow> None | Some st' \<Rightarrow> wrap_words width ws st')"

text \<open>\<^verbatim>\<open>lines.map((l, i) => (i === 0 ? l : hangingPrefix + l))\<close>\<close>

definition hang :: "jsstring \<Rightarrow> jsstring list \<Rightarrow> jsstring list" where
  "hang hangingPrefix lines =
     (case lines of [] \<Rightarrow> [] | l # ls \<Rightarrow> l # map (\<lambda>x. hangingPrefix @ x) ls)"

text \<open>\<^verbatim>\<open>text.split(/\s+/).filter(Boolean)\<close>\<close>

definition words_of :: "jsstring \<Rightarrow> jsstring list" where
  "words_of text = filter (\<lambda>w. w \<noteq> []) (js_split_ws text)"

text \<open>The lines of \<^verbatim>\<open>wrapText\<close> before the hanging prefix and the join.\<close>

definition wrap_lines :: "jsstring \<Rightarrow> int \<Rightarrow> jsstring list option" where
  "wrap_lines text width =
     (case wrap_words width (words_of text) ([], []) of
        None \<Rightarrow> None
      | Some (lines, line) \<Rightarrow> Some (if line \<noteq> [] then lines @ [line] else lines))"

definition wrapText :: "jsstring \<Rightarrow> int \<Rightarrow> jsstring \<Rightarrow> jsstring option" where
  "wrapText text width hangingPrefix =
     map_option (\<lambda>lines. js_join [10] (hang hangingPrefix lines)) (wrap_lines text width)"

text \<open>
  The body of a list, definition-list or paragraph unit:
  \<^verbatim>\<open>[rest0, ...lines.slice(1).map(l => l.trim())].join(" ").replace(/\s+/g, " ").trim()\<close>
\<close>

definition join_body :: "jsstring list \<Rightarrow> jsstring" where
  "join_body parts = js_trim (collapse_ws (js_join [32] parts))"

text \<open>\<^verbatim>\<open>reflowParagraph(lines, width)\<close>\<close>

definition reflowParagraph :: "jsstring list \<Rightarrow> int \<Rightarrow> jsstring list option" where
  "reflowParagraph lines width =
     (if lines = [] then Some []
      else case LIST_RE (hd lines) of
        Some (indent, marker, rest) \<Rightarrow>
          (let checklist = (case CHECKLIST_RE rest of None \<Rightarrow> [] | Some c \<Rightarrow> c);
               rest0 = js_slice_from rest (int (length checklist));
               head = indent @ marker @ [32] @ checklist;
               hangingLen = max (length head) (if checklist \<noteq> [] then 8 else length head);
               hanging = replicate hangingLen 32;
               body = join_body (rest0 # map js_trim (tl lines))
           in map_option (\<lambda>wrapped. [head @ wrapped])
                (wrapText body (max 20 (width - int hangingLen)) hanging))
      | None \<Rightarrow>
         (case DEF_LIST_RE (hd lines) of
            Some (indent, term0, rest0) \<Rightarrow>
              (let head = indent @ js_trim term0 @ js '':: '';
                   hanging = replicate (length head) 32;
                   joined = join_body (rest0 # map js_trim (tl lines))
               in map_option (\<lambda>wrapped. [head @ wrapped])
                    (wrapText joined (max 20 (width - int (length hanging))) hanging))
          | None \<Rightarrow>
              if list_ex HARD_BREAK_RE lines then Some lines
              else (let joined = join_body (map js_trim lines)
                    in if joined = [] then Some [[]]
                       else map_option (js_split_char 10) (wrapText joined width []))))"

section \<open>Collecting a list item\<close>

text \<open>The lines at which \<^verbatim>\<open>collectListItem\<close> stops without taking them (its first
  group of \<^verbatim>\<open>break\<close> tests).\<close>

definition item_boundary :: "jsstring \<Rightarrow> bool" where
  "item_boundary line \<longleftrightarrow>
     (let t = js_trim line
      in BLANK_RE line \<or> COMMENT_BLOCK_FENCE_RE t \<or> TABLE_FENCE_RE t \<or>
         FENCE_RE t \<or> OPEN_BLOCK_RE t \<or> HR_RE t \<or> PAGE_RE t \<or>
         TITLE_RE line \<or> ATTR_RE line \<or> BLOCK_TITLE_RE line \<or> BLOCK_ATTR_RE line \<or>
         ANCHOR_RE line \<or> CONDITIONAL_RE line \<or> INCLUDE_RE line \<or> BLOCK_MACRO_RE line)"

text \<open>The \<^verbatim>\<open>while (j < srcLines.length)\<close> loop of \<^verbatim>\<open>collectListItem\<close>; the result is
  \<^verbatim>\<open>{ lines, next: j, complex }\<close>.\<close>

function collect_loop ::
    "jsstring list \<Rightarrow> nat \<Rightarrow> nat \<Rightarrow> nat \<Rightarrow> jsstring list \<Rightarrow> bool
       \<Rightarrow> jsstring list \<times> nat \<times> bool" where
  "collect_loop srcLines topIndent topDepth j lines complex =
     (if j < length srcLines then
        (let line = srcLines ! j
         in if item_boundary line then (lines, j, complex)
            else if CONTINUATION_LINE_RE line then (lines @ [line], j + 1, True)
            else case LIST_RE line of
              Some (indent, marker, rest) \<Rightarrow>
                if length indent \<le> topIndent \<and> markerDepth marker \<le> topDepth
                then (lines, j, complex)
                else collect_loop srcLines topIndent topDepth (j + 1) (lines @ [line]) True
            | None \<Rightarrow>
               (case DEF_LIST_RE line of
                  Some (indent, term0, rest) \<Rightarrow>
                    if length indent \<le> topIndent then (lines, j, complex)
                    else collect_loop srcLines topIndent topDepth (j + 1) (lines @ [line]) True
                | None \<Rightarrow>
                    if INDENTED_CODE_RE line
                    then collect_loop srcLines topIndent topDepth (j + 1) (lines @ [line]) True
                    else collect_loop srcLines topIndent topDepth (j + 1) (lines @ [line]) complex))
      else (lines, j, complex))"
  by pat_completeness auto
termination
  by (relation "measure (\<lambda>(srcLines, topIndent, topDepth, j, lines, complex). length srcLines - j)")
     auto

declare collect_loop.simps [simp del]

text \<open>\<^verbatim>\<open>first.match(LIST_RE) || first.match(DEF_LIST_RE)\<close>\<close>

definition item_match :: "jsstring \<Rightarrow> (jsstring \<times> jsstring \<times> jsstring) option" where
  "item_match line = (case LIST_RE line of Some m \<Rightarrow> Some m | None \<Rightarrow> DEF_LIST_RE line)"

definition collectListItem :: "jsstring list \<Rightarrow> nat \<Rightarrow> jsstring list \<times> nat \<times> bool" where
  "collectListItem srcLines i =
     (let first = srcLines ! i
      in case item_match first of
           None \<Rightarrow> ([first], i + 1, False)
         | Some (indent, marker, rest) \<Rightarrow>
             collect_loop srcLines (length indent) (markerDepth marker) (i + 1) [first] False)"

section \<open>Main reflow\<close>

record scan_state =
  out :: "jsstring list"
  para :: "jsstring list"
  inFence :: bool
  inOpen :: bool
  inTable :: bool
  inCommentBlock :: bool
  inLiteralPara :: bool

definition init_state :: scan_state where
  "init_state = \<lparr>out = [], para = [], inFence = False, inOpen = False, inTable = False,
                  inCommentBlock = False, inLiteralPara = False\<rparr>"

text \<open>\<^verbatim>\<open>out.push(line)\<close> and \<^verbatim>\<open>out.push(...lines)\<close>\<close>

definition push :: "jsstring list \<Rightarrow> scan_state \<Rightarrow> scan_state" where
  "push ls st = st\<lparr>out := out st @ ls\<rparr>"

text \<open>
  What a call does: it returns a value, it throws, or it runs for ever. The one exception
  that \<^verbatim>\<open>core.js\<close> can raise is the \<^verbatim>\<open>RangeError\<close> of a call with more arguments than
  the engine accepts: \<^verbatim>\<open>out.push(...lines)\<close> passes every line as an argument of its own.
  The language does not fix that number, so it is the parameter \<open>maxArgs\<close> of the model.
  \<open>None\<close> is the run that does not end (the loop of \<open>hardSplit\<close>).
\<close>

datatype error = RangeError

type_synonym 'a run = "(error + 'a) option"

abbreviation Returns :: "'a \<Rightarrow> (error + 'a) option" where
  "Returns x \<equiv> Some (Inr x)"

abbreviation Throws :: "error \<Rightarrow> (error + 'a) option" where
  "Throws e \<equiv> Some (Inl e)"

definition bind_run :: "'a run \<Rightarrow> ('a \<Rightarrow> 'b run) \<Rightarrow> 'b run" where
  "bind_run m f = (case m of None \<Rightarrow> None | Some (Inl e) \<Rightarrow> Throws e | Some (Inr x) \<Rightarrow> f x)"

text \<open>A loop that returns or does not end, as a run.\<close>

definition of_loop :: "'a option \<Rightarrow> 'a run" where
  "of_loop m = map_option Inr m"

text \<open>\<^verbatim>\<open>out.push(...lines)\<close>: the lines are the arguments of one call.\<close>

definition push_spread :: "nat \<Rightarrow> jsstring list \<Rightarrow> scan_state \<Rightarrow> scan_state run" where
  "push_spread maxArgs ls st =
     (if length ls \<le> maxArgs then Returns (push ls st) else Throws RangeError)"

text \<open>The closure \<^verbatim>\<open>flush\<close>: \<^verbatim>\<open>out.push(...reflowParagraph(para, width)); para = []\<close>.\<close>

definition flush :: "nat \<Rightarrow> int \<Rightarrow> scan_state \<Rightarrow> scan_state run" where
  "flush maxArgs width st =
     (if para st = [] then Returns st
      else bind_run (of_loop (reflowParagraph (para st) width)) (\<lambda>ls.
             bind_run (push_spread maxArgs ls st) (\<lambda>s. Returns (s\<lparr>para := []\<rparr>))))"

text \<open>The structural single-line boundaries of the main loop.\<close>

definition structural :: "jsstring \<Rightarrow> bool" where
  "structural line \<longleftrightarrow>
     BLOCK_TITLE_RE line \<or> BLOCK_ATTR_RE line \<or> ANCHOR_RE line \<or> CONDITIONAL_RE line \<or>
     INCLUDE_RE line \<or> BLOCK_MACRO_RE line \<or> HR_RE (js_trim line) \<or> PAGE_RE (js_trim line)"

text \<open>The single-line admonition: \<^verbatim>\<open>prefix + wrapText(...)\<close>, or the prefix alone.\<close>

definition admonition :: "int \<Rightarrow> jsstring \<Rightarrow> jsstring \<Rightarrow> jsstring option" where
  "admonition width label body =
     (let prefix = label @ js '': ''; hanging = replicate (length prefix) 32
      in if body \<noteq> []
         then map_option (\<lambda>wrapped. prefix @ wrapped)
                (wrapText (js_trim body) (max 20 (width - int (length hanging))) hanging)
         else Some prefix)"

text \<open>
  One round of the \<^verbatim>\<open>for\<close> loop of \<^verbatim>\<open>reflowTextAdoc\<close> at index \<open>i\<close>: the new state
  and the index of the next round (\<open>i + 1\<close>, or \<^verbatim>\<open>next\<close> after a list item).
\<close>

definition step ::
    "nat \<Rightarrow> jsstring list \<Rightarrow> int \<Rightarrow> nat \<Rightarrow> scan_state \<Rightarrow> (scan_state \<times> nat) run" where
  "step maxArgs src width i st =
     (let line = src ! i; t = js_trim line
      in if COMMENT_BLOCK_FENCE_RE t then
           bind_run (flush maxArgs width st)
             (\<lambda>s. Returns (push [line] (s\<lparr>inCommentBlock := \<not> inCommentBlock s\<rparr>), i + 1))
         else if inCommentBlock st then Returns (push [line] st, i + 1)
         else if LINE_COMMENT_RE line then
           bind_run (flush maxArgs width st) (\<lambda>s. Returns (push [line] s, i + 1))
         else if structural line then
           bind_run (flush maxArgs width st) (\<lambda>s. Returns (push [line] s, i + 1))
         else if TABLE_FENCE_RE t then
           bind_run (flush maxArgs width st)
             (\<lambda>s. Returns (push [line] (s\<lparr>inTable := \<not> inTable s\<rparr>), i + 1))
         else if inTable st then Returns (push [line] st, i + 1)
         else if FENCE_RE t then
           bind_run (flush maxArgs width st)
             (\<lambda>s. Returns (push [line] (s\<lparr>inFence := \<not> inFence s\<rparr>), i + 1))
         else if OPEN_BLOCK_RE t then
           bind_run (flush maxArgs width st)
             (\<lambda>s. Returns (push [line] (s\<lparr>inOpen := \<not> inOpen s\<rparr>), i + 1))
         else if BLANK_RE line then
           (let isLast = (i = length src - 1)
            in bind_run (flush maxArgs width (st\<lparr>inLiteralPara := False\<rparr>))
                 (\<lambda>s. Returns (if \<not> (isLast \<and> line = []) then push [[]] s else s, i + 1)))
         else if inFence st \<or> inOpen st \<or> TITLE_RE line \<or> ATTR_RE line then
           bind_run (flush maxArgs width st) (\<lambda>s. Returns (push [line] s, i + 1))
         else if para st = [] \<and> \<not> inLiteralPara st \<and> LEADING_SPACE_LINE_RE line then
           bind_run (flush maxArgs width st)
             (\<lambda>s. Returns (push [line] (s\<lparr>inLiteralPara := True\<rparr>), i + 1))
         else if inLiteralPara st then Returns (push [line] st, i + 1)
         else case ADMON_SINGLE_RE line of
           Some (label, body) \<Rightarrow>
             bind_run (flush maxArgs width st) (\<lambda>s.
               bind_run (of_loop (admonition width label body))
                 (\<lambda>wrapped. Returns (push [wrapped] s, i + 1)))
         | None \<Rightarrow>
             if LIST_RE line \<noteq> None \<or> DEF_LIST_RE line \<noteq> None then
               bind_run (flush maxArgs width st) (\<lambda>s.
                 case collectListItem src i of (lines, next, complex) \<Rightarrow>
                   if complex then
                     bind_run (push_spread maxArgs lines s) (\<lambda>s'. Returns (s', next))
                   else
                     bind_run (of_loop (reflowParagraph lines width)) (\<lambda>ls.
                       bind_run (push_spread maxArgs ls s) (\<lambda>s'. Returns (s', next))))
             else if INDENTED_CODE_RE line then
               bind_run (flush maxArgs width st) (\<lambda>s. Returns (push [line] s, i + 1))
             else Returns (st\<lparr>para := para st @ [line]\<rparr>, i + 1))"

text \<open>How a run that returns is composed.\<close>

lemma bind_run_simps [simp]:
  "bind_run None f = None" "bind_run (Throws e) f = Throws e" "bind_run (Returns x) f = f x"
  by (simp_all add: bind_run_def)

lemma bind_run_eq_Returns:
  "bind_run m f = Returns y \<longleftrightarrow> (\<exists>x. m = Returns x \<and> f x = Returns y)"
  by (auto simp: bind_run_def split: option.splits sum.splits)

lemma of_loop_simps [simp]:
  "of_loop None = None" "of_loop (Some x) = Returns x"
  by (simp_all add: of_loop_def)

lemma of_loop_eq_Returns: "of_loop m = Returns x \<longleftrightarrow> m = Some x"
  by (cases m) simp_all

lemma push_spread_eq_Returns:
  "push_spread maxArgs ls st = Returns s \<longleftrightarrow> length ls \<le> maxArgs \<and> s = push ls st"
  by (auto simp: push_spread_def)

lemmas run_eq = bind_run_eq_Returns of_loop_eq_Returns push_spread_eq_Returns

text \<open>The index only moves forward: \<^verbatim>\<open>collectListItem\<close> returns \<^verbatim>\<open>next > i\<close>.\<close>

lemma collect_loop_next:
  "collect_loop srcLines topIndent topDepth j lines complex = (ls, n, c) \<Longrightarrow> j \<le> n"
proof (induction srcLines topIndent topDepth j lines complex rule: collect_loop.induct)
  case (1 srcLines topIndent topDepth j lines complex)
  show ?case
    using "1.prems" "1.IH"
    by (subst (asm) collect_loop.simps)
       (fastforce simp: Let_def split: if_splits option.splits prod.splits)
qed

lemma collectListItem_next:
  "collectListItem srcLines i = (ls, n, c) \<Longrightarrow> i < n"
  by (auto simp: collectListItem_def Let_def split: option.splits prod.splits
           dest!: collect_loop_next)

lemma step_next:
  assumes "step maxArgs src width i st = Returns (st', i')"
  shows "i < i'"
proof -
  obtain ls n c where cl: "collectListItem src i = (ls, n, c)"
    by (cases "collectListItem src i") auto
  then have "i < n" by (rule collectListItem_next)
  with cl assms show ?thesis
    by (auto simp: step_def Let_def run_eq
             split: if_splits option.splits prod.splits)
qed

text \<open>The \<^verbatim>\<open>for\<close> loop of \<^verbatim>\<open>reflowTextAdoc\<close> from index \<open>i\<close> on.\<close>

function scan :: "nat \<Rightarrow> jsstring list \<Rightarrow> int \<Rightarrow> nat \<Rightarrow> scan_state \<Rightarrow> scan_state run" where
  "scan maxArgs src width i st =
     (if i < length src then
        (case step maxArgs src width i st of
           None \<Rightarrow> None
         | Some (Inl e) \<Rightarrow> Throws e
         | Some (Inr (st', i')) \<Rightarrow> scan maxArgs src width i' st')
      else Returns st)"
  by pat_completeness auto
termination
  by (relation "measure (\<lambda>(maxArgs, src, width, i, st). length src - i)")
     (auto dest: step_next)

declare scan.simps [simp del]

text \<open>\<^verbatim>\<open>reflowTextAdoc(input, width)\<close>, run by an engine that accepts \<open>maxArgs\<close> arguments.\<close>

definition endsWithNL :: "jsstring \<Rightarrow> bool" where
  "endsWithNL input \<longleftrightarrow> input \<noteq> [] \<and> last input = 10"

definition reflowTextAdoc :: "nat \<Rightarrow> jsstring \<Rightarrow> int \<Rightarrow> jsstring run" where
  "reflowTextAdoc maxArgs input width =
     bind_run (scan maxArgs (js_split_lines input) width 0 init_state) (\<lambda>st.
       bind_run (flush maxArgs width st) (\<lambda>s.
         Returns (js_join [10] (out s) @ (if endsWithNL input then [10] else []))))"

text \<open>
  The states of the scan: \<open>reachable maxArgs src width i st\<close> holds when the loop over \<open>src\<close>
  stands at index \<open>i\<close> with state \<open>st\<close> after some number of rounds.
\<close>

inductive reachable :: "nat \<Rightarrow> jsstring list \<Rightarrow> int \<Rightarrow> nat \<Rightarrow> scan_state \<Rightarrow> bool"
  for maxArgs :: nat and src :: "jsstring list" and width :: int where
  start: "reachable maxArgs src width 0 init_state"
| round: "reachable maxArgs src width i st \<Longrightarrow> i < length src \<Longrightarrow>
          step maxArgs src width i st = Returns (st', i') \<Longrightarrow> reachable maxArgs src width i' st'"

text \<open>What holds of the paragraph buffer in every state of the scan: its lines are no list
  or definition-list heads and not blank, and it is empty inside a literal paragraph.\<close>

definition para_inv :: "scan_state \<Rightarrow> bool" where
  "para_inv st \<longleftrightarrow>
     (\<forall>l \<in> set (para st). LIST_RE l = None \<and> DEF_LIST_RE l = None \<and> \<not> BLANK_RE l) \<and>
     (inLiteralPara st \<longrightarrow> para st = [])"

text \<open>The four block-mode flags of a state.\<close>

definition modes :: "scan_state \<Rightarrow> bool \<times> bool \<times> bool \<times> bool" where
  "modes st = (inFence st, inOpen st, inTable st, inCommentBlock st)"

text \<open>A token: a non-empty string without white space.\<close>

definition is_token :: "jsstring \<Rightarrow> bool" where
  "is_token w \<longleftrightarrow> w \<noteq> [] \<and> (\<forall>c \<in> set w. \<not> is_space c)"

text \<open>
  A line made by the short-word rule of \<^verbatim>\<open>wrapText\<close>: two tokens with one blank between
  them, the first of at most two code units. \<open>line_ok\<close> is what holds of every line the
  wrap loop builds.
\<close>

definition carried :: "jsstring \<Rightarrow> bool" where
  "carried l \<longleftrightarrow>
     (case js_split_char 32 l of
        [a, b] \<Rightarrow> length a \<le> 2 \<and> is_token a \<and> is_token b
      | _ \<Rightarrow> False)"

definition line_ok :: "int \<Rightarrow> jsstring \<Rightarrow> bool" where
  "line_ok width l \<longleftrightarrow> int (length l) \<le> width \<or> URL_TOKEN_RE l \<or> carried l"

text \<open>
  A line that is not empty and does not end in a line feed, an output whose last line is
  such a line, and a list of lines none of which holds a line feed.
\<close>

definition good_line :: "jsstring \<Rightarrow> bool" where
  "good_line l \<longleftrightarrow> l \<noteq> [] \<and> last l \<noteq> 10"



section \<open>Evaluation on concrete documents\<close>

text \<open>The definitions that the simplifier unfolds to run the model on a concrete input.\<close>

named_theorems ev

lemmas [ev] = js_def is_space_def is_dot_def is_digit_def is_lower_def is_alpha_def is_wordplus_def
  is_sptab_def is_fence_char_def all_ws_def all_dot_def opt_ws_dot_def starts_with_def js_trim_def
  slice_index_def js_slice_def js_slice_from_def FENCE_RE_def OPEN_BLOCK_RE_def TITLE_RE_def ATTR_RE_def
  BLOCK_TITLE_RE_def BLOCK_ATTR_RE_def ANCHOR_RE_def CONDITIONAL_RE_def include_target_def INCLUDE_RE_def
  bracket_close_def BLOCK_MACRO_RE_def TABLE_FENCE_RE_def COMMENT_BLOCK_FENCE_RE_def LINE_COMMENT_RE_def
  HR_RE_def PAGE_RE_def URL_TOKEN_RE_def LEADING_SPACE_LINE_RE_def INDENTED_CODE_RE_def
  CONTINUATION_LINE_RE_def BLANK_RE_def HARD_BREAK_RE_def bullet_run_def list_marker_def LIST_RE_def
  DEF_LIST_RE_def ADMON_SINGLE_RE_def CHECKLIST_RE_def markerDepth_def hardSplit.simps wrap_word_def
  hang_def words_of_def wrap_lines_def wrapText_def join_body_def reflowParagraph_def item_boundary_def
  collect_loop.simps item_match_def collectListItem_def init_state_def push_def bind_run_def of_loop_def push_spread_def flush_def structural_def
  admonition_def step_def scan.simps endsWithNL_def reflowTextAdoc_def modes_def is_token_def carried_def line_ok_def Let_def

section \<open>Facts about one round of the scan\<close>

lemma all_ws_dropWhile: "all_ws s \<Longrightarrow> dropWhile is_space s = []"
  by (simp add: all_ws_def list_all_iff)

lemma all_ws_trim: "all_ws s \<Longrightarrow> js_trim s = []"
  by (simp add: js_trim_def all_ws_dropWhile)

lemma empty_not_toggle:
  "\<not> COMMENT_BLOCK_FENCE_RE []" "\<not> TABLE_FENCE_RE []" "\<not> FENCE_RE []" "\<not> OPEN_BLOCK_RE []"
  "\<not> HR_RE []" "\<not> PAGE_RE []"
  by (simp_all add: COMMENT_BLOCK_FENCE_RE_def TABLE_FENCE_RE_def FENCE_RE_def OPEN_BLOCK_RE_def
        HR_RE_def PAGE_RE_def starts_with_def js_def)

lemma all_ws_hd: "all_ws (c # r) \<Longrightarrow> is_space c"
  by (simp add: all_ws_def)

lemma all_ws_not_comment: "all_ws s \<Longrightarrow> \<not> LINE_COMMENT_RE s"
  by (simp add: LINE_COMMENT_RE_def all_ws_dropWhile starts_with_def js_def)

lemma all_ws_not_structural: "all_ws s \<Longrightarrow> \<not> structural s"
proof -
  assume a: "all_ws s"
  have sp: "\<And>c r. s = c # r \<Longrightarrow> is_space c" using a by (auto simp: all_ws_def)
  have 1: "\<not> BLOCK_TITLE_RE s"
    using sp by (auto simp: BLOCK_TITLE_RE_def is_space_def split: list.splits)
  have 2: "\<not> BLOCK_ATTR_RE s"
    using sp by (auto simp: BLOCK_ATTR_RE_def is_space_def split: list.splits)
  have 3: "\<not> ANCHOR_RE s"
    using a by (simp add: ANCHOR_RE_def all_ws_dropWhile starts_with_def js_def)
  have 4: "\<not> CONDITIONAL_RE s"
    using sp by (cases s) (auto simp: CONDITIONAL_RE_def starts_with_def js_def is_space_def)
  have 5: "\<not> INCLUDE_RE s"
    using sp by (cases s) (auto simp: INCLUDE_RE_def starts_with_def js_def is_space_def)
  have 6: "\<not> BLOCK_MACRO_RE s"
    using sp by (cases s) (auto simp: BLOCK_MACRO_RE_def is_alpha_def is_space_def)
  show ?thesis
    using 1 2 3 4 5 6 a by (simp add: structural_def all_ws_trim empty_not_toggle)
qed

lemma step_blank:
  assumes "all_ws (src ! i)" "\<not> inCommentBlock st" "\<not> inTable st"
  shows "step maxArgs src width i st =
     bind_run (flush maxArgs width (st\<lparr>inLiteralPara := False\<rparr>))
       (\<lambda>s. Returns (if \<not> (i = length src - 1 \<and> src ! i = []) then push [[]] s else s, i + 1))"
  using assms
  by (simp add: step_def Let_def all_ws_trim empty_not_toggle all_ws_not_comment
        all_ws_not_structural BLANK_RE_def)





lemma flush_Some:
  assumes "flush maxArgs width st = Returns s"
  shows "para s = []" "inFence s = inFence st" "inOpen s = inOpen st" "inTable s = inTable st"
    "inCommentBlock s = inCommentBlock st" "inLiteralPara s = inLiteralPara st"
  using assms by (auto simp: flush_def run_eq push_def split: if_splits)


lemma flush_empty: "para st = [] \<Longrightarrow> flush maxArgs width st = Returns st"
  by (simp add: flush_def)

lemma step_cases [consumes 1, case_names comment_fence in_comment plain table_fence in_table
    fence open_block blank literal_start in_literal admon list_item accumulate]:
  assumes "step maxArgs src width i st = Returns (st', i')"
  obtains
    s where "COMMENT_BLOCK_FENCE_RE (js_trim (src ! i))" "flush maxArgs width st = Returns s"
      "st' = push [src ! i] (s\<lparr>inCommentBlock := \<not> inCommentBlock s\<rparr>)" "i' = i + 1"
  | "\<not> COMMENT_BLOCK_FENCE_RE (js_trim (src ! i))" "inCommentBlock st"
      "st' = push [src ! i] st" "i' = i + 1"
  | s where "\<not> COMMENT_BLOCK_FENCE_RE (js_trim (src ! i))" "\<not> inCommentBlock st"
      "\<not> BLANK_RE (src ! i)"
      "LINE_COMMENT_RE (src ! i) \<or> structural (src ! i) \<or>
       \<not> TABLE_FENCE_RE (js_trim (src ! i)) \<and> \<not> inTable st"
      "flush maxArgs width st = Returns s" "st' = push [src ! i] s" "i' = i + 1"
  | s where "\<not> inCommentBlock st" "TABLE_FENCE_RE (js_trim (src ! i))" "flush maxArgs width st = Returns s"
      "st' = push [src ! i] (s\<lparr>inTable := \<not> inTable s\<rparr>)" "i' = i + 1"
  | "\<not> COMMENT_BLOCK_FENCE_RE (js_trim (src ! i))" "\<not> inCommentBlock st" "\<not> TABLE_FENCE_RE (js_trim (src ! i))" "inTable st"
      "st' = push [src ! i] st" "i' = i + 1"
  | s where "\<not> COMMENT_BLOCK_FENCE_RE (js_trim (src ! i))" "\<not> inCommentBlock st" "\<not> TABLE_FENCE_RE (js_trim (src ! i))" "\<not> inTable st"
      "FENCE_RE (js_trim (src ! i))"
      "flush maxArgs width st = Returns s" "st' = push [src ! i] (s\<lparr>inFence := \<not> inFence s\<rparr>)" "i' = i + 1"
  | s where "\<not> COMMENT_BLOCK_FENCE_RE (js_trim (src ! i))" "\<not> inCommentBlock st" "\<not> TABLE_FENCE_RE (js_trim (src ! i))" "\<not> inTable st"
      "OPEN_BLOCK_RE (js_trim (src ! i))"
      "flush maxArgs width st = Returns s" "st' = push [src ! i] (s\<lparr>inOpen := \<not> inOpen s\<rparr>)" "i' = i + 1"
  | s where "\<not> COMMENT_BLOCK_FENCE_RE (js_trim (src ! i))" "\<not> inCommentBlock st" "\<not> TABLE_FENCE_RE (js_trim (src ! i))" "\<not> inTable st"
      "BLANK_RE (src ! i)"
      "flush maxArgs width (st\<lparr>inLiteralPara := False\<rparr>) = Returns s"
      "st' = (if \<not> (i = length src - 1 \<and> src ! i = []) then push [[]] s else s)" "i' = i + 1"
  | s where "\<not> COMMENT_BLOCK_FENCE_RE (js_trim (src ! i))" "\<not> inCommentBlock st" "\<not> TABLE_FENCE_RE (js_trim (src ! i))" "\<not> inTable st"
      "\<not> inFence st" "\<not> inOpen st"
      "\<not> BLANK_RE (src ! i)" "para st = []" "\<not> inLiteralPara st" "LEADING_SPACE_LINE_RE (src ! i)"
      "flush maxArgs width st = Returns s" "st' = push [src ! i] (s\<lparr>inLiteralPara := True\<rparr>)" "i' = i + 1"
  | "\<not> COMMENT_BLOCK_FENCE_RE (js_trim (src ! i))" "\<not> inCommentBlock st" "\<not> TABLE_FENCE_RE (js_trim (src ! i))" "\<not> inTable st"
      "\<not> inFence st" "\<not> inOpen st"
      "\<not> BLANK_RE (src ! i)" "inLiteralPara st" "st' = push [src ! i] st" "i' = i + 1"
  | s label body wrapped where "\<not> COMMENT_BLOCK_FENCE_RE (js_trim (src ! i))" "\<not> inCommentBlock st"
      "\<not> TABLE_FENCE_RE (js_trim (src ! i))" "\<not> inTable st" "\<not> inFence st"
      "\<not> inOpen st" "\<not> BLANK_RE (src ! i)" "\<not> inLiteralPara st"
      "ADMON_SINGLE_RE (src ! i) = Some (label, body)" "flush maxArgs width st = Returns s"
      "admonition width label body = Some wrapped" "st' = push [wrapped] s" "i' = i + 1"
  | s ls c outl where "\<not> COMMENT_BLOCK_FENCE_RE (js_trim (src ! i))" "\<not> inCommentBlock st"
      "\<not> TABLE_FENCE_RE (js_trim (src ! i))" "\<not> inTable st" "\<not> inFence st"
      "\<not> inOpen st" "\<not> BLANK_RE (src ! i)" "\<not> inLiteralPara st"
      "LIST_RE (src ! i) \<noteq> None \<or> DEF_LIST_RE (src ! i) \<noteq> None" "flush maxArgs width st = Returns s"
      "collectListItem src i = (ls, i', c)"
      "if c then outl = ls else reflowParagraph ls width = Some outl" "st' = push outl s"
      "length outl \<le> maxArgs"
  | "\<not> COMMENT_BLOCK_FENCE_RE (js_trim (src ! i))" "\<not> inCommentBlock st" "\<not> TABLE_FENCE_RE (js_trim (src ! i))" "\<not> inTable st"
      "\<not> inFence st" "\<not> inOpen st"
      "\<not> BLANK_RE (src ! i)" "\<not> inLiteralPara st"
      "LIST_RE (src ! i) = None" "DEF_LIST_RE (src ! i) = None"
      "st' = st\<lparr>para := para st @ [src ! i]\<rparr>" "i' = i + 1"
proof -
  let ?l = "src ! i" and ?t = "js_trim (src ! i)"
  note d = step_def Let_def run_eq
  have nb: "BLANK_RE ?l \<Longrightarrow> \<not> LINE_COMMENT_RE ?l \<and> \<not> structural ?l"
    by (simp add: BLANK_RE_def all_ws_not_comment all_ws_not_structural)
  show thesis
  proof (cases "COMMENT_BLOCK_FENCE_RE ?t")
    case True
    with assms that(1) show thesis by (auto simp: d)
  next
    case c1: False
    show thesis
    proof (cases "inCommentBlock st")
      case True
      with assms c1 that(2) show thesis by (auto simp: d)
    next
      case c2: False
      show thesis
      proof (cases "LINE_COMMENT_RE ?l \<or> structural ?l")
        case True
        then have "\<not> BLANK_RE ?l" using nb by blast
        moreover from assms c1 c2 True obtain s where
          "flush maxArgs width st = Returns s" "st' = push [?l] s" "i' = i + 1"
          by (auto simp: d split: if_splits)
        ultimately show thesis using c1 c2 True that(3) by blast
      next
        case c3: False
        show thesis
        proof (cases "TABLE_FENCE_RE ?t")
          case True
          with assms c1 c2 c3 that(4) show thesis by (auto simp: d)
        next
          case c4: False
          show thesis
          proof (cases "inTable st")
            case True
            with assms c1 c2 c3 c4 that(5) show thesis by (auto simp: d)
          next
            case c5: False
            show thesis
            proof (cases "FENCE_RE ?t")
              case True
              with assms c1 c2 c3 c4 c5 that(6) show thesis by (auto simp: d)
            next
              case c6: False
              show thesis
              proof (cases "OPEN_BLOCK_RE ?t")
                case True
                with assms c1 c2 c3 c4 c5 c6 that(7) show thesis by (auto simp: d)
              next
                case c7: False
                show thesis
                proof (cases "BLANK_RE ?l")
                  case True
                  with assms c1 c2 c3 c4 c5 c6 c7 that(8) show thesis by (auto simp: d)
                next
                  case c8: False
                  note c = c1 c2 c3 c4 c5 c6 c7 c8
                  show thesis
                  proof (cases "inFence st \<or> inOpen st \<or> TITLE_RE ?l \<or> ATTR_RE ?l")
                    case True
                    with assms c obtain s where
                      "flush maxArgs width st = Returns s" "st' = push [?l] s" "i' = i + 1"
                      by (auto simp: d)
                    then show thesis using c that(3) by blast
                  next
                    case c9: False
                    show thesis
                    proof (cases "para st = [] \<and> \<not> inLiteralPara st \<and> LEADING_SPACE_LINE_RE ?l")
                      case True
                      with assms c c9 that(9) show thesis by (auto simp: d)
                    next
                      case c10: False
                      show thesis
                      proof (cases "inLiteralPara st")
                        case True
                        with assms c c9 c10 that(10) show thesis by (auto simp: d)
                      next
                        case c11: False
                        show thesis
                        proof (cases "ADMON_SINGLE_RE ?l")
                          case (Some lb)
                          with assms c c9 c10 c11 that(11) show thesis
                            by (cases lb) (auto simp: d)
                        next
                          case c12: None
                          show thesis
                          proof (cases "LIST_RE ?l \<noteq> None \<or> DEF_LIST_RE ?l \<noteq> None")
                            case True
                            obtain ls n cx where cl: "collectListItem src i = (ls, n, cx)"
                              by (cases "collectListItem src i") auto
                            from assms c c9 c10 c11 c12 True cl
                            have "\<exists>s outl. flush maxArgs width st = Returns s \<and>
                              (if cx then outl = ls else reflowParagraph ls width = Some outl) \<and>
                              st' = push outl s \<and> i' = n \<and> length outl \<le> maxArgs"
                              by (cases cx) (auto simp: d)
                            then obtain s outl where "flush maxArgs width st = Returns s"
                              "if cx then outl = ls else reflowParagraph ls width = Some outl"
                              "st' = push outl s" "i' = n" "length outl \<le> maxArgs"
                              by blast
                            with c c9 c11 True cl that(12) show thesis by blast
                          next
                            case c13: False
                            show thesis
                            proof (cases "INDENTED_CODE_RE ?l")
                              case True
                              with assms c c9 c10 c11 c12 c13 obtain s where
                                "flush maxArgs width st = Returns s" "st' = push [?l] s" "i' = i + 1"
                                by (auto simp: d)
                              then show thesis using c that(3) by blast
                            next
                              case False
                              from c13 have n: "LIST_RE ?l = None" "DEF_LIST_RE ?l = None"
                                by blast+
                              from assms c c9 c10 c11 c12 n False
                              have "st' = st\<lparr>para := para st @ [?l]\<rparr>" "i' = i + 1"
                                by (auto simp: d)
                              with c c9 c11 n that(13) show thesis by blast
                            qed
                          qed
                        qed
                      qed
                    qed
                  qed
                qed
              qed
            qed
          qed
        qed
      qed
    qed
  qed
qed

lemma step_para_inv:
  assumes "step maxArgs src width i st = Returns (st', i')" "para_inv st"
  shows "para_inv st'"
  using assms
  by (cases rule: step_cases)
     (auto simp: para_inv_def push_def dest: flush_Some split: if_splits)

lemma reachable_para_inv: "reachable maxArgs src width i st \<Longrightarrow> para_inv st"
proof (induction rule: reachable.induct)
  case start
  show ?case by (simp add: para_inv_def init_state_def)
next
  case (round i st st' i')
  then show ?case using step_para_inv by blast
qed

lemma scan_reachable:
  "reachable maxArgs src width i st \<Longrightarrow> scan maxArgs src width i st = Returns st' \<Longrightarrow>
   \<exists>j. length src \<le> j \<and> reachable maxArgs src width j st'"
proof (induction maxArgs src width i st rule: scan.induct)
  case (1 maxArgs src width i st)
  show ?case
  proof (cases "i < length src")
    case False
    with "1.prems" have "st' = st" "length src \<le> i"
      by (auto simp: scan.simps[of maxArgs src width i st])
    with "1.prems"(1) show ?thesis by blast
  next
    case True
    with "1.prems"(2) obtain s2 i2 where st: "step maxArgs src width i st = Returns (s2, i2)"
      and sc: "scan maxArgs src width i2 s2 = Returns st'"
      by (auto simp: scan.simps[of maxArgs src width i st] split: option.splits sum.splits)
    from "1.prems"(1) True st have "reachable maxArgs src width i2 s2" by (rule reachable.round)
    with "1.IH"[OF True st refl refl] sc show ?thesis by blast
  qed
qed

section \<open>Hard line breaks\<close>





section \<open>Blank lines\<close>



section \<open>Block modes\<close>







section \<open>Literal paragraphs\<close>

lemma literal_round:
  assumes "reachable maxArgs src width i st" "inLiteralPara st" "\<not> BLANK_RE (src ! i)"
  shows "\<exists>st'. step maxArgs src width i st = Returns (st', i + 1) \<and> out st' = out st @ [src ! i] \<and>
           inLiteralPara st' \<and> para st' = []"
proof -
  have p: "para st = []" using reachable_para_inv[OF assms(1)] assms(2) by (simp add: para_inv_def)
  then have f: "flush maxArgs width st = Returns st" by (rule flush_empty)
  show ?thesis using assms(2,3) p f
    by (simp add: step_def Let_def push_def)
qed

lemma literal_end:
  assumes "BLANK_RE (src ! i)" "\<not> inCommentBlock st" "\<not> inTable st" "inLiteralPara st" "para st = []"
  shows "\<exists>st'. step maxArgs src width i st = Returns (st', i + 1) \<and> \<not> inLiteralPara st'"
  using assms step_blank[where src = src and i = i and st = st and width = width and maxArgs = maxArgs]
  by (auto simp: BLANK_RE_def flush_def push_def)

text \<open>
  Claim C7 says that inside a literal paragraph no line toggles a block mode. The tests
  for fences come before the test of \<^verbatim>\<open>inLiteralPara\<close>: after the literal line
  \<^verbatim>\<open> lit\<close> the line \<^verbatim>\<open>----\<close> is emitted unchanged and sets \<^verbatim>\<open>inFence\<close>.
\<close>

theorem literal_paragraph_fence_toggles:
  "scan 1000 [js '' lit'', js ''----''] 80 0 init_state =
     Returns (init_state\<lparr>out := [js '' lit'', js ''----''], inFence := True, inLiteralPara := True\<rparr>)"
  by (simp add: ev)

text \<open>
  Claim C7, as the code has it: in every state of the scan that is inside a literal paragraph, a
  line that is not blank is emitted unchanged, whatever its kind, the paragraph buffer
  stays empty and the literal paragraph goes on; a blank line met outside comment blocks
  and tables ends the literal paragraph.
\<close>

theorem literal_paragraph_lines_verbatim:
  assumes "reachable maxArgs src width i st" "i < length src" "inLiteralPara st"
  shows "(\<not> BLANK_RE (src ! i) \<longrightarrow>
            (\<exists>st'. step maxArgs src width i st = Returns (st', i + 1) \<and> out st' = out st @ [src ! i] \<and>
                   inLiteralPara st' \<and> para st' = [])) \<and>
         (BLANK_RE (src ! i) \<and> \<not> inCommentBlock st \<and> \<not> inTable st \<longrightarrow>
            (\<exists>st'. step maxArgs src width i st = Returns (st', i + 1) \<and> \<not> inLiteralPara st'))"
proof -
  have "para st = []"
    using reachable_para_inv[OF assms(1)] assms(3) by (simp add: para_inv_def)
  then show ?thesis
    using literal_round[OF assms(1) assms(3)] literal_end[where src = src and i = i and st = st and width = width and maxArgs = maxArgs]
      assms(3)
    by blast
qed

theorem literal_paragraph_lines_verbatim_witness:
  "reachable 1000 [js '' lit'', js ''----''] 80 1 (init_state\<lparr>out := [js '' lit''], inLiteralPara := True\<rparr>) \<and>
   1 < length [js '' lit'', js ''----''] \<and>
   inLiteralPara (init_state\<lparr>out := [js '' lit''], inLiteralPara := True\<rparr>) \<and>
   \<not> BLANK_RE ([js '' lit'', js ''----''] ! 1) \<and>
   (\<exists>st'. step 1000 [js '' lit'', js ''----''] 80 1 (init_state\<lparr>out := [js '' lit''], inLiteralPara := True\<rparr>) =
            Returns (st', 1 + 1) \<and>
          out st' = out (init_state\<lparr>out := [js '' lit''], inLiteralPara := True\<rparr>) @
                      [[js '' lit'', js ''----''] ! 1])"
proof -
  let ?src = "[js '' lit'', js ''----'']"
  let ?st = "init_state\<lparr>out := [js '' lit''], inLiteralPara := True\<rparr>"
  have s0: "step 1000 ?src 80 0 init_state = Returns (?st, 1)" by (simp add: ev)
  have r: "reachable 1000 ?src 80 1 ?st"
    by (rule reachable.round[OF reachable.start _ s0]) simp
  have h: "1 < length ?src" "inLiteralPara ?st" "\<not> BLANK_RE (?src ! 1)"
    by (simp_all add: ev)
  from literal_paragraph_lines_verbatim[OF r h(1) h(2)] h(3)
  have "\<exists>st'. step 1000 ?src 80 1 ?st = Returns (st', 1 + 1) \<and> out st' = out ?st @ [?src ! 1]"
    by blast
  with r h show ?thesis by blast
qed

section \<open>Termination\<close>

lemma hardSplit_pos:
  assumes "0 < width"
  shows "\<exists>chunks rest. hardSplit width lines s = Some (lines @ chunks, rest) \<and>
           concat chunks @ rest = s \<and> (\<forall>c \<in> set chunks. int (length c) = width) \<and>
           int (length rest) \<le> width \<and> (s \<noteq> [] \<longrightarrow> rest \<noteq> [])"
proof (induction "length s" arbitrary: s lines rule: less_induct)
  case less
  show ?case
  proof (cases "int (length s) > width")
    case False
    then show ?thesis
      by (subst hardSplit.simps) (auto intro!: exI[of _ "[]"])
  next
    case True
    let ?a = "js_slice s 0 width" and ?b = "js_slice_from s width"
    have lt: "nat width < length s" using assms True by linarith
    have si: "slice_index (length s) width = nat width" "slice_index (length s) 0 = 0"
      using assms lt by (simp_all add: slice_index_def)
    have a: "?a = take (nat width) s"
      by (simp add: js_slice_def si Let_def)
    have b: "?b = drop (nat width) s"
      by (simp add: js_slice_from_def si)
    have "length ?b < length s" unfolding b using assms lt by simp
    from less[OF this, of "lines @ [?a]"]
    obtain chunks rest where h: "hardSplit width (lines @ [?a]) ?b = Some ((lines @ [?a]) @ chunks, rest)"
      "concat chunks @ rest = ?b" "\<forall>c \<in> set chunks. int (length c) = width"
      "int (length rest) \<le> width" "?b \<noteq> [] \<longrightarrow> rest \<noteq> []"
      by blast
    have bne: "?b \<noteq> []" unfolding b using lt by simp
    have "hardSplit width lines s = Some (lines @ (?a # chunks), rest)"
      using True h(1) by (subst hardSplit.simps) simp
    moreover have "concat (?a # chunks) @ rest = s" using h(2) a b by simp
    moreover have "\<forall>c \<in> set (?a # chunks). int (length c) = width"
      using h(3) a True assms by auto
    ultimately show ?thesis using h(4,5) bne by blast
  qed
qed





















section \<open>Tokens and the wrap loop\<close>

lemma split_ws_shape:
  "js_split_ws s \<noteq> [] \<and> hd (js_split_ws s) = takeWhile (\<lambda>c. \<not> is_space c) s"
  by (induction s rule: js_split_ws.induct) (auto split: list.splits)

lemma words_of_Nil [simp]: "words_of [] = []"
  by (simp add: words_of_def)

lemma words_of_dropWhile: "words_of (dropWhile is_space s) = words_of s"
  by (induction s) (auto simp: words_of_def)

lemma words_of_space: "is_space c \<Longrightarrow> words_of (c # s) = words_of s"
  using words_of_dropWhile[of s] by (simp add: words_of_def)

lemma split_ws_tl:
  "filter (\<lambda>w. w \<noteq> []) (tl (js_split_ws s)) = words_of (dropWhile (\<lambda>c. \<not> is_space c) s)"
proof (induction s rule: js_split_ws.induct)
  case 1
  show ?case by simp
next
  case (2 c cs)
  show ?case
  proof (cases "is_space c")
    case True
    then show ?thesis using words_of_dropWhile[of cs] words_of_space[of c cs]
      by (simp add: words_of_def)
  next
    case False
    with 2 show ?thesis using split_ws_shape[of cs]
      by (cases "js_split_ws cs") auto
  qed
qed

lemma words_of_nonspace:
  assumes "\<not> is_space c"
  shows "words_of (c # s) =
    (c # takeWhile (\<lambda>c. \<not> is_space c) s) # words_of (dropWhile (\<lambda>c. \<not> is_space c) s)"
proof -
  obtain p ps where sp: "js_split_ws (c # s) = p # ps"
    using split_ws_shape[of "c # s"] by (cases "js_split_ws (c # s)") auto
  have p: "p = c # takeWhile (\<lambda>c. \<not> is_space c) s"
    using split_ws_shape[of "c # s"] sp assms by simp
  have "filter (\<lambda>w. w \<noteq> []) ps = words_of (dropWhile (\<lambda>c. \<not> is_space c) s)"
    using split_ws_tl[of "c # s"] sp assms by simp
  with sp p show ?thesis by (simp add: words_of_def)
qed

lemma words_of_token: "is_token w \<Longrightarrow> words_of w = [w]"
  by (cases w) (auto simp: is_token_def words_of_nonspace takeWhile_eq_all_conv[THEN iffD2]
       dropWhile_eq_Nil_conv[THEN iffD2])

lemma words_of_append:
  "is_space c \<Longrightarrow> words_of (u @ c # v) = words_of u @ words_of v"
proof (induction "length u" arbitrary: u rule: less_induct)
  case less
  show ?case
  proof (cases u)
    case Nil
    with less.prems show ?thesis by (simp add: words_of_space)
  next
    case (Cons d u')
    show ?thesis
    proof (cases "is_space d")
      case True
      with less Cons show ?thesis by (simp add: words_of_space)
    next
      case False
      let ?ns = "\<lambda>c. \<not> is_space c"
      show ?thesis
      proof (cases "\<forall>x \<in> set u'. ?ns x")
        case True
        then have e: "takeWhile ?ns (u' @ c # v) = u'" "dropWhile ?ns (u' @ c # v) = c # v"
          "takeWhile ?ns u' = u'" "dropWhile ?ns u' = []"
          using less.prems by (simp_all add: takeWhile_append dropWhile_append)
        have "words_of (d # u' @ c # v) = (d # u') # words_of (c # v)"
          by (simp only: words_of_nonspace[OF False] e(1,2))
        moreover have "words_of (d # u') = [d # u']"
          by (simp only: words_of_nonspace[OF False] e(3,4) words_of_Nil)
        ultimately show ?thesis using Cons less.prems by (simp add: words_of_space)
      next
        case nall: False
        then have t: "takeWhile ?ns (u' @ c # v) = takeWhile ?ns u'"
          "dropWhile ?ns (u' @ c # v) = dropWhile ?ns u' @ c # v"
          by (auto simp: takeWhile_append dropWhile_append)
        have "length (dropWhile ?ns u') < length u"
          using Cons length_dropWhile_le[of ?ns u'] by simp
        from less.hyps[OF this less.prems]
        have "words_of (dropWhile ?ns u' @ c # v) = words_of (dropWhile ?ns u') @ words_of v" .
        with False Cons t show ?thesis by (simp add: words_of_nonspace)
      qed
    qed
  qed
qed

lemma words_of_tokens: "\<forall>w \<in> set (words_of s). is_token w"
proof (induction "length s" arbitrary: s rule: less_induct)
  case less
  show ?case
  proof (cases s)
    case Nil
    then show ?thesis by simp
  next
    case (Cons c cs)
    show ?thesis
    proof (cases "is_space c")
      case True
      have "length cs < length s" using Cons by simp
      from less[OF this] True Cons show ?thesis by (simp add: words_of_space)
    next
      case False
      have "length (dropWhile (\<lambda>c. \<not> is_space c) cs) < length s"
        using Cons length_dropWhile_le[of "\<lambda>c. \<not> is_space c" cs] by simp
      from less[OF this]
      have r: "\<forall>w \<in> set (words_of (dropWhile (\<lambda>c. \<not> is_space c) cs)). is_token w" .
      have "is_token (c # takeWhile (\<lambda>c. \<not> is_space c) cs)"
        using False by (auto simp: is_token_def dest: set_takeWhileD)
      with r show ?thesis
        by (simp only: Cons words_of_nonspace[OF False]) simp
    qed
  qed
qed

lemma split_char_nonempty: "js_split_char c s \<noteq> []"
  by (induction s) (auto split: list.splits)

lemma join_split_char: "js_join [c] (js_split_char c s) = s"
proof (induction s)
  case Nil
  show ?case by simp
next
  case (Cons d s)
  obtain p ps where sp: "js_split_char c s = p # ps"
    using split_char_nonempty[of c s] by (cases "js_split_char c s") auto
  with Cons show ?case by (cases ps) auto
qed

lemma join_snoc: "ts \<noteq> [] \<Longrightarrow> js_join sep (ts @ [w]) = js_join sep ts @ sep @ w"
  by (induction sep ts rule: js_join.induct) auto


lemma split_char_none: "c \<notin> set w \<Longrightarrow> js_split_char c w = [w]"
  by (induction w) (auto split: list.splits)

lemma split_char_append:
  "c \<notin> set x \<Longrightarrow> js_split_char c (x @ c # r) = x # js_split_char c r"
  by (induction x) (auto split: list.splits)

lemma split_join_char:
  "ts \<noteq> [] \<Longrightarrow> \<forall>t \<in> set ts. c \<notin> set t \<Longrightarrow> js_split_char c (js_join [c] ts) = ts"
proof (induction ts)
  case Nil
  then show ?case by simp
next
  case (Cons t ts)
  show ?case
  proof (cases ts)
    case Nil
    with Cons.prems show ?thesis by (simp add: split_char_none)
  next
    case (Cons u us)
    with Cons.IH Cons.prems have "js_split_char c (js_join [c] ts) = ts" by simp
    with Cons Cons.prems show ?thesis by (simp add: split_char_append)
  qed
qed

lemma words_of_join:
  "is_space c \<Longrightarrow> words_of (js_join [c] xs) = concat (map words_of xs)"
  by (induction "[c]" xs rule: js_join.induct) (auto simp: words_of_append)

lemma words_of_split_char:
  "is_space c \<Longrightarrow> concat (map words_of (js_split_char c s)) = words_of s"
  using words_of_join[of c "js_split_char c s"] by (simp add: join_split_char)

lemma words_of_snoc_space: "is_space c \<Longrightarrow> words_of (u @ [c]) = words_of u"
  using words_of_append[of c u "[]"] by simp

lemma words_of_drop_trailing: "words_of (rev (dropWhile is_space (rev t))) = words_of t"
  by (induction t rule: rev_induct) (auto simp: words_of_snoc_space)

lemma words_of_trim: "words_of (js_trim s) = words_of s"
  by (simp add: js_trim_def words_of_drop_trailing words_of_dropWhile)

lemma collapse_takeWhile:
  "takeWhile (\<lambda>c. \<not> is_space c) (collapse_ws s) = takeWhile (\<lambda>c. \<not> is_space c) s"
  by (induction s rule: collapse_ws.induct) (auto simp: is_space_def)

lemma collapse_dropWhile:
  "dropWhile (\<lambda>c. \<not> is_space c) (collapse_ws s) = collapse_ws (dropWhile (\<lambda>c. \<not> is_space c) s)"
  by (induction s rule: collapse_ws.induct) (auto simp: is_space_def)

lemma words_of_collapse: "words_of (collapse_ws s) = words_of s"
proof (induction "length s" arbitrary: s rule: less_induct)
  case less
  show ?case
  proof (cases s)
    case Nil
    then show ?thesis by simp
  next
    case (Cons c cs)
    show ?thesis
    proof (cases "is_space c")
      case True
      have "length (dropWhile is_space cs) < length s"
        using Cons length_dropWhile_le[of is_space cs] by simp
      from less[OF this] have "words_of (collapse_ws (dropWhile is_space cs)) = words_of cs"
        by (simp add: words_of_dropWhile)
      moreover have "is_space 32" by (simp add: is_space_def)
      ultimately show ?thesis using True Cons by (simp add: words_of_space)
    next
      case False
      have "length (dropWhile (\<lambda>c. \<not> is_space c) cs) < length s"
        using Cons length_dropWhile_le[of "\<lambda>c. \<not> is_space c" cs] by simp
      from less[OF this] False Cons show ?thesis
        by (simp add: words_of_nonspace collapse_takeWhile collapse_dropWhile)
    qed
  qed
qed

lemma words_of_join_body: "words_of (join_body xs) = concat (map words_of xs)"
  by (simp add: join_body_def words_of_trim words_of_collapse words_of_join is_space_def)

lemma join_tokens_Nil:
  "\<forall>t \<in> set ts. is_token t \<Longrightarrow> (js_join [32] ts = []) = (ts = [])"
  by (induction "[32::nat]" ts rule: js_join.induct) (auto simp: is_token_def)

lemma token_no_blank: "is_token t \<Longrightarrow> 32 \<notin> set t"
  by (auto simp: is_token_def is_space_def)

lemma wrap_word_cases [consumes 4, case_names hard fit sticky over]:
  assumes w: "0 < width" and tok: "is_token w" and ts: "\<forall>t \<in> set ts. is_token t"
    and l: "l = js_join [32] ts"
  obtains
    chunks rest where "\<not> URL_TOKEN_RE w" "width \<le> int (length w)"
      "wrap_word width (L, l) w = Some ((if ts \<noteq> [] then L @ [l] else L) @ chunks, rest)"
      "concat chunks @ rest = w" "\<forall>c \<in> set chunks. int (length c) = width"
      "int (length rest) \<le> width" "rest \<noteq> []"
  | "URL_TOKEN_RE w \<or> int (length w) < width"
      "int (length (js_join [32] (ts @ [w]))) \<le> width"
      "wrap_word width (L, l) w = Some (L, js_join [32] (ts @ [w]))"
  | "URL_TOKEN_RE w \<or> int (length w) < width" "2 \<le> length ts" "length (last ts) \<le> 2"
      "wrap_word width (L, l) w = Some (L @ [js_join [32] (butlast ts)], js_join [32] [last ts, w])"
  | "URL_TOKEN_RE w \<or> int (length w) < width"
      "wrap_word width (L, l) w = Some (L @ [l], w)"
proof -
  have lne: "(l \<noteq> []) = (ts \<noteq> [])" using join_tokens_Nil[OF ts] l by simp
  have cand: "(if ts \<noteq> [] then l @ 32 # w else w) = js_join [32] (ts @ [w])"
    using l by (cases "ts = []") (simp_all add: join_snoc)
  have parts: "ts \<noteq> [] \<Longrightarrow> js_split_char 32 l = ts"
    using split_join_char[of ts 32] ts token_no_blank l by blast
  have unf: "wrap_word width (L, l) w =
     (if \<not> URL_TOKEN_RE w \<and> int (length w) \<ge> width then
        hardSplit width (if ts \<noteq> [] then L @ [l] else L) w
      else if int (length (js_join [32] (ts @ [w]))) > width then
        if ts \<noteq> [] \<and> length (last ts) \<le> 2 \<and> length ts > 1
        then Some (L @ [js_join [32] (butlast ts)], last ts @ 32 # w)
        else Some (L @ [l], w)
      else Some (L, js_join [32] (ts @ [w])))"
  proof (cases "ts = []")
    case True
    then have "l = []" using l by simp
    with True show ?thesis by (simp add: wrap_word_def Let_def)
  next
    case False
    then have h: "l \<noteq> []" "js_split_char 32 l = ts" "l @ 32 # w = js_join [32] (ts @ [w])"
      using lne parts cand by simp_all
    have "wrap_word width (L, l) w =
     (if \<not> URL_TOKEN_RE w \<and> int (length w) \<ge> width then
        hardSplit width (L @ [l]) w
      else if int (length (l @ 32 # w)) > width then
        if length (last (js_split_char 32 l)) \<le> 2 \<and> length (js_split_char 32 l) > 1
        then Some (L @ [js_join [32] (butlast (js_split_char 32 l))],
                   last (js_split_char 32 l) @ 32 # w)
        else Some (L @ [l], w)
      else Some (L, l @ 32 # w))"
      using h(1) by (simp add: wrap_word_def Let_def)
    then show ?thesis using False by (simp only: h(2,3) if_True simp_thms)
  qed
  show thesis
  proof (cases "\<not> URL_TOKEN_RE w \<and> int (length w) \<ge> width")
    case True
    from hardSplit_pos[OF w, of "if ts \<noteq> [] then L @ [l] else L" w]
    obtain chunks rest where h:
      "hardSplit width (if ts \<noteq> [] then L @ [l] else L) w =
         Some ((if ts \<noteq> [] then L @ [l] else L) @ chunks, rest)"
      "concat chunks @ rest = w" "\<forall>c \<in> set chunks. int (length c) = width"
      "int (length rest) \<le> width" "w \<noteq> [] \<longrightarrow> rest \<noteq> []"
      by blast
    have "wrap_word width (L, l) w = Some ((if ts \<noteq> [] then L @ [l] else L) @ chunks, rest)"
      using True h(1) by (simp add: unf)
    moreover have "rest \<noteq> []" using h(5) tok by (simp add: is_token_def)
    ultimately show thesis using True h(2,3,4) that(1) by blast
  next
    case nh: False
    then have nh': "URL_TOKEN_RE w \<or> int (length w) < width" by auto
    show thesis
    proof (cases "int (length (js_join [32] (ts @ [w]))) > width")
      case False
      then have "wrap_word width (L, l) w = Some (L, js_join [32] (ts @ [w]))"
        using nh by (auto simp: unf)
      with False nh' that(2) show thesis by simp
    next
      case ov: True
      show thesis
      proof (cases "ts \<noteq> [] \<and> length (last ts) \<le> 2 \<and> length ts > 1")
        case True
        then have "wrap_word width (L, l) w =
            Some (L @ [js_join [32] (butlast ts)], js_join [32] [last ts, w])"
          using nh ov by (auto simp: unf)
        with True nh' that(3) show thesis by simp
      next
        case False
        then have "wrap_word width (L, l) w = Some (L @ [l], w)"
          using nh ov by (auto simp: unf)
        with nh' that(4) show thesis by simp
      qed
    qed
  qed
qed

lemma words_of_join_tokens:
  "\<forall>t \<in> set ts. is_token t \<Longrightarrow> words_of (js_join [32] ts) = ts"
proof -
  assume a: "\<forall>t \<in> set ts. is_token t"
  have "is_space 32" by (simp add: is_space_def)
  then have "words_of (js_join [32] ts) = concat (map words_of ts)" by (rule words_of_join)
  also have "\<dots> = ts" using a by (induction ts) (simp_all add: words_of_token)
  finally show ?thesis .
qed

lemma wrap_words_tokens:
  assumes "0 < width"
    and "\<forall>w \<in> set ws. is_token w \<and> (URL_TOKEN_RE w \<or> int (length w) \<le> width)"
    and "\<forall>t \<in> set ts. is_token t"
  shows "\<exists>L' ts'. wrap_words width ws (L, js_join [32] ts) = Some (L', js_join [32] ts') \<and>
           (\<forall>t \<in> set ts'. is_token t) \<and>
           concat (map words_of L') @ ts' = concat (map words_of L) @ ts @ ws"
  using assms(2,3)
proof (induction ws arbitrary: L ts)
  case Nil
  then show ?case by auto
next
  case (Cons w ws)
  have tok: "is_token w" and len: "URL_TOKEN_RE w \<or> int (length w) \<le> width"
    using Cons.prems(1) by auto
  have wl: "words_of (js_join [32] ts) = ts" using Cons.prems(2) by (rule words_of_join_tokens)
  have "\<exists>L1 ts1. wrap_word width (L, js_join [32] ts) w = Some (L1, js_join [32] ts1) \<and>
          (\<forall>t \<in> set ts1. is_token t) \<and>
          concat (map words_of L1) @ ts1 = concat (map words_of L) @ ts @ [w]"
    using assms(1) tok Cons.prems(2) refl
  proof (cases rule: wrap_word_cases[where L = L])
    case (hard chunks rest)
    have "chunks = []"
    proof (rule ccontr)
      assume "chunks \<noteq> []"
      then obtain c cs where "chunks = c # cs" by (cases chunks) auto
      with hard(4,5,7) have "int (length w) > width"
        by (cases rest) (auto simp: length_concat)
      with hard(1) len show False by auto
    qed
    with hard have "wrap_word width (L, js_join [32] ts) w =
        Some (if ts \<noteq> [] then L @ [js_join [32] ts] else L, js_join [32] [w])" by simp
    then show ?thesis using tok wl
      by (intro exI[of _ "if ts \<noteq> [] then L @ [js_join [32] ts] else L"] exI[of _ "[w]"]) auto
  next
    case fit
    then show ?thesis using tok Cons.prems(2)
      by (intro exI[of _ L] exI[of _ "ts @ [w]"]) auto
  next
    case sticky
    have "ts \<noteq> []" using sticky(2) by auto
    then have bl: "butlast ts @ [last ts] = ts" by simp
    have tb: "\<forall>t \<in> set (butlast ts). is_token t"
      using Cons.prems(2) by (auto dest: in_set_butlastD)
    have "words_of (js_join [32] (butlast ts)) = butlast ts"
      using tb by (rule words_of_join_tokens)
    moreover have "is_token (last ts)" using Cons.prems(2) \<open>ts \<noteq> []\<close> by simp
    ultimately show ?thesis using sticky(4) tok bl
      by (intro exI[of _ "L @ [js_join [32] (butlast ts)]"] exI[of _ "[last ts, w]"])
         (auto simp: append_eq_append_conv2)
  next
    case over
    then have "wrap_word width (L, js_join [32] ts) w = Some (L @ [js_join [32] ts], js_join [32] [w])"
      by simp
    then show ?thesis using tok wl
      by (intro exI[of _ "L @ [js_join [32] ts]"] exI[of _ "[w]"]) auto
  qed
  then obtain L1 ts1 where s1: "wrap_word width (L, js_join [32] ts) w = Some (L1, js_join [32] ts1)"
    "\<forall>t \<in> set ts1. is_token t"
    "concat (map words_of L1) @ ts1 = concat (map words_of L) @ ts @ [w]"
    by blast
  from Cons.IH[of ts1 L1] Cons.prems(1) s1(2)
  obtain L' ts' where s2: "wrap_words width ws (L1, js_join [32] ts1) = Some (L', js_join [32] ts')"
    "\<forall>t \<in> set ts'. is_token t"
    "concat (map words_of L') @ ts' = concat (map words_of L1) @ ts1 @ ws"
    by auto
  have "wrap_words width (w # ws) (L, js_join [32] ts) = Some (L', js_join [32] ts')"
    using s1(1) s2(1) by simp
  moreover have "concat (map words_of L') @ ts' = concat (map words_of L) @ ts @ w # ws"
    using s2(3) s1(3) by (metis append.assoc append_Cons append_Nil)
  ultimately show ?case using s2(2) by blast
qed

lemma hang_Nil: "hang [] ls = ls"
proof -
  have "map ((@) []) xs = xs" for xs :: "jsstring list" by (induction xs) simp_all
  then show ?thesis by (cases ls) (simp_all add: hang_def)
qed

lemma wrap_lines_tokens:
  assumes "0 < width"
    and "\<forall>w \<in> set (words_of text). URL_TOKEN_RE w \<or> int (length w) \<le> width"
  shows "\<exists>ls. wrap_lines text width = Some ls \<and> concat (map words_of ls) = words_of text"
proof -
  have "\<forall>w \<in> set (words_of text). is_token w \<and> (URL_TOKEN_RE w \<or> int (length w) \<le> width)"
    using assms(2) words_of_tokens by blast
  from wrap_words_tokens[OF assms(1) this, of "[]" "[]"]
  obtain L' ts' where h: "wrap_words width (words_of text) ([], []) = Some (L', js_join [32] ts')"
    "\<forall>t \<in> set ts'. is_token t" "concat (map words_of L') @ ts' = words_of text"
    by auto
  have "words_of (js_join [32] ts') = ts'" using h(2) by (rule words_of_join_tokens)
  with h show ?thesis by (auto simp: wrap_lines_def)
qed

text \<open>
  Claim C2, as the code has it: for a width of at least 1, a paragraph whose first line is neither
  a list nor a definition-list head, and whose tokens are URL tokens or no longer than
  the width, is reflowed into lines whose token sequence is that of the source lines.
\<close>

theorem reflowParagraph_preserves_tokens:
  assumes "0 < width" "LIST_RE (hd lines) = None" "DEF_LIST_RE (hd lines) = None"
    and "\<forall>w \<in> set (concat (map words_of lines)). URL_TOKEN_RE w \<or> int (length w) \<le> width"
  shows "\<exists>outl. reflowParagraph lines width = Some outl \<and>
           concat (map words_of outl) = concat (map words_of lines)"
proof -
  let ?joined = "join_body (map js_trim lines)"
  have wj: "words_of ?joined = concat (map words_of lines)"
    by (simp add: words_of_join_body words_of_trim comp_def)
  from wrap_lines_tokens[OF assms(1), of ?joined] assms(4) wj
  obtain ls where ls: "wrap_lines ?joined width = Some ls"
    "concat (map words_of ls) = concat (map words_of lines)"
    by auto
  have sp: "is_space 10" by (simp add: is_space_def)
  have "concat (map words_of (js_split_char 10 (js_join [10] ls))) = concat (map words_of ls)"
    by (simp add: words_of_split_char[OF sp] words_of_join[OF sp])
  with ls wj assms(2,3) show ?thesis
    by (auto simp: reflowParagraph_def Let_def wrapText_def hang_Nil)
qed

text \<open>
  Claim C2 (the token sequence of a reflowed prose paragraph is that of its source) fails
  where \<^verbatim>\<open>wrapText\<close> splits a long token on purpose: the one-token paragraph
  \<^verbatim>\<open>abcdef\<close>, neither a list item nor a hard-break paragraph, becomes the two lines
  \<^verbatim>\<open>abcd\<close> and \<^verbatim>\<open>ef\<close> at width 4, two tokens for one.
\<close>

theorem reflowParagraph_splits_long_token:
  "LIST_RE (js ''abcdef'') = None \<and> DEF_LIST_RE (js ''abcdef'') = None \<and>
   \<not> HARD_BREAK_RE (js ''abcdef'') \<and>
   reflowParagraph [js ''abcdef''] 4 = Some [js ''abcd'', js ''ef''] \<and>
   concat (map words_of [js ''abcdef'']) = [js ''abcdef''] \<and>
   concat (map words_of [js ''abcd'', js ''ef'']) = [js ''abcd'', js ''ef'']"
  by (simp add: ev)

theorem reflowParagraph_preserves_tokens_witness:
  "(0::int) < 5 \<and> LIST_RE (hd [js ''aa bb'', js ''cc'']) = None \<and>
   DEF_LIST_RE (hd [js ''aa bb'', js ''cc'']) = None \<and>
   list_all (\<lambda>w. URL_TOKEN_RE w \<or> int (length w) \<le> 5)
     (concat (map words_of [js ''aa bb'', js ''cc''])) \<and>
   (\<exists>outl. reflowParagraph [js ''aa bb'', js ''cc''] 5 = Some outl \<and>
      concat (map words_of outl) = concat (map words_of [js ''aa bb'', js ''cc'']))"
proof -
  have h: "(0::int) < 5" "LIST_RE (hd [js ''aa bb'', js ''cc'']) = None"
    "DEF_LIST_RE (hd [js ''aa bb'', js ''cc'']) = None"
    by (simp_all add: ev)
  have l: "list_all (\<lambda>w. URL_TOKEN_RE w \<or> int (length w) \<le> 5)
      (concat (map words_of [js ''aa bb'', js ''cc'']))"
    by (simp add: ev)
  then have b: "\<forall>w \<in> set (concat (map words_of [js ''aa bb'', js ''cc''])).
      URL_TOKEN_RE w \<or> int (length w) \<le> 5"
    by (simp only: list_all_iff)
  from reflowParagraph_preserves_tokens[OF h b] h l show ?thesis by blast
qed

section \<open>Width of wrapped lines\<close>










section \<open>Idempotence\<close>

text \<open>
  Claim C1 (idempotence of \<^verbatim>\<open>reflowTextAdoc\<close>) fails on the code. At width 6 the
  paragraph \<^verbatim>\<open>aaa - bbb ccc\<close> is wrapped into three lines, the second of which starts
  with the token \<^verbatim>\<open>-\<close>; a second pass reads that line as a list item, takes the third
  line as its body and joins the two. The theorem runs the two passes.
\<close>

theorem reflowTextAdoc_second_pass_differs:
  "reflowTextAdoc 1000 (js ''aaa - bbb ccc'') 6 = Returns (js ''aaa\<newline>- bbb\<newline>ccc'') \<and>
   reflowTextAdoc 1000 (js ''aaa\<newline>- bbb\<newline>ccc'') 6 = Returns (js ''aaa\<newline>- bbb ccc'')"
  by (simp add: ev)

section \<open>Verbatim blocks\<close>

text \<open>
  Claim C4 (verbatim round-trip between block delimiters) fails on the code inside a
  generic fence: the blank-line test comes before the test of \<^verbatim>\<open>inFence\<close>, so a line
  of two blanks between two \<^verbatim>\<open>----\<close> lines is emitted as the empty line.
\<close>

theorem reflowTextAdoc_fence_blank_line_stripped:
  "reflowTextAdoc 1000 (js ''----\<newline>  \<newline>----\<newline>'') 80 = Returns (js ''----\<newline>\<newline>----\<newline>'')"
  by (simp add: ev)

section \<open>Trailing line terminator\<close>


















lemma good_snoc: "c \<noteq> 10 \<Longrightarrow> good_line (a @ [c])"
  by (simp add: good_line_def)




















end
